theory Spec2Isabelle
  imports Main
begin

section \<open>The usysconf state tracker (src/state.c)\<close>

subsection \<open>Bytes, C strings and errno values\<close>

text \<open>
  Buffers are byte lists. A C string is the part of a buffer in front of its first NUL
  byte; \<open>cstr\<close> reads it. The errno values are those of Linux' \<open>errno.h\<close>.
\<close>

abbreviation NL :: char where "NL \<equiv> CHR 0x0A"
abbreviation NUL :: char where "NUL \<equiv> CHR 0x00"

definition ENOENT :: int where "ENOENT = 2"
definition EINVAL :: int where "EINVAL = 22"
definition ERANGE :: int where "ERANGE = 34"

definition LLONG_MAX :: int where "LLONG_MAX = 2 ^ 63 - 1"
definition LLONG_MIN :: int where "LLONG_MIN = - (2 ^ 63)"

definition cstr :: "string \<Rightarrow> string" where
  "cstr bfr = takeWhile (\<lambda>b. b \<noteq> NUL) bfr"

subsection \<open>The data of the tracker\<close>

text \<open>
  \<open>struct UscStateEntry\<close>: the \<open>next\<close> pointers of the chain are the list structure;
  \<open>ptr\<close> is never NULL in a chain built by \<open>usc_state_tracker_put_entry\<close>, the only
  place that makes a node, so it is a plain string, and \<open>strcmp(a, b) == 0\<close> on two C
  strings is equality of the strings. \<open>time_t\<close> is a signed 64-bit count
  of seconds: the values come from stat or from strtoll (which saturates), and the code
  does no arithmetic on them, so they are integers here.
\<close>

record UscStateEntry =
  ptr :: string
  mtime :: int

record UscStateTracker =
  state_file :: string
  entry :: "UscStateEntry list"

text \<open>
  The collaborators of the tracker: the C library and \<open>files.c\<close>, which is not part of
  the translated source. \<open>realpath\<close> and \<open>stat\<close> are the system calls of
  \<open>usc_state_tracker_push_path\<close>; \<open>usc_file_mtime\<close> and \<open>usc_file_exists\<close> are the
  helpers of \<open>files.h\<close>; \<open>fopen_r\<close> is \<open>fopen(path, "r")\<close>, giving the errno of the
  failure or the bytes of the file; \<open>mkdir_ok\<close>, \<open>fopen_w_ok\<close> and \<open>fprintf_ok\<close> (by
  the number of the node being written) say whether the calls of
  \<open>usc_state_tracker_write\<close> succeed; \<open>strtoll_noconv\<close> is the errno strtoll stores when
  it finds no digits (none with glibc; POSIX allows EINVAL).
\<close>

record fs =
  realpath :: "string \<Rightarrow> string option"
  stat :: "string \<Rightarrow> int option"
  usc_file_mtime :: "string \<Rightarrow> int option"
  usc_file_exists :: "string \<Rightarrow> bool"
  fopen_r :: "string \<Rightarrow> int + string"
  mkdir_ok :: bool
  fopen_w_ok :: bool
  fprintf_ok :: "nat \<Rightarrow> bool"
  strtoll_noconv :: "int option"

text \<open>\<open>usc_state_tracker_new\<close>; the macro USYSCONF_STATUS_FILE of config.h is a parameter.\<close>

definition usc_state_tracker_new :: "string \<Rightarrow> UscStateTracker" where
  "usc_state_tracker_new status_file = \<lparr>state_file = status_file, entry = []\<rparr>"

subsection \<open>Lookup, insertion, record-path\<close>

text \<open>
  \<open>usc_state_tracker_lookup\<close> walks the chain and returns the first node whose
  \<open>ptr\<close> compares equal, or NULL. The node is returned as its position in the chain.
\<close>

fun lookup_chain :: "UscStateEntry list \<Rightarrow> string \<Rightarrow> nat option" where
  "lookup_chain [] path = None"
| "lookup_chain (e # es) path =
     (if ptr e = path then Some 0 else map_option Suc (lookup_chain es path))"

definition usc_state_tracker_lookup :: "UscStateTracker \<Rightarrow> string \<Rightarrow> nat option" where
  "usc_state_tracker_lookup self path = lookup_chain (entry self) path"

text \<open>
  \<open>usc_state_tracker_put_entry\<close>. The two flags say whether \<open>calloc\<close> and \<open>strdup\<close>
  succeed; they are consulted only when a node has to be made.
\<close>

definition usc_state_tracker_put_entry ::
  "bool \<Rightarrow> bool \<Rightarrow> UscStateTracker \<Rightarrow> string \<Rightarrow> int \<Rightarrow> bool \<times> UscStateTracker" where
  "usc_state_tracker_put_entry calloc_ok strdup_ok self path mt =
     (case usc_state_tracker_lookup self path of
        Some i \<Rightarrow> (True, self\<lparr>entry := (entry self)[i := (entry self ! i)\<lparr>mtime := mt\<rparr>]\<rparr>)
      | None \<Rightarrow>
          if \<not> calloc_ok then (False, self)
          else if \<not> strdup_ok then (False, self)
          else (True, self\<lparr>entry := \<lparr>ptr = path, mtime = mt\<rparr> # entry self\<rparr>))"

definition usc_state_tracker_push_path ::
  "fs \<Rightarrow> bool \<Rightarrow> bool \<Rightarrow> UscStateTracker \<Rightarrow> string \<Rightarrow> bool \<times> UscStateTracker" where
  "usc_state_tracker_push_path env calloc_ok strdup_ok self path =
     (case realpath env path of
        None \<Rightarrow> (False, self)
      | Some dup \<Rightarrow>
          (case stat env dup of
             None \<Rightarrow> (False, self)
           | Some st_mtime \<Rightarrow>
               usc_state_tracker_put_entry calloc_ok strdup_ok self dup st_mtime))"

subsection \<open>The freshness query\<close>

text \<open>
  \<open>usc_state_tracker_needs_update\<close> receives the tracker by pointer; the model returns
  the tracker as the call leaves it, next to the answer.
\<close>

definition usc_state_tracker_needs_update ::
  "fs \<Rightarrow> UscStateTracker \<Rightarrow> string \<Rightarrow> bool \<Rightarrow> bool \<times> UscStateTracker" where
  "usc_state_tracker_needs_update env self path force =
     (case realpath env path of
        None \<Rightarrow> (False, self)
      | Some real \<Rightarrow>
          (case usc_state_tracker_lookup self real of
             None \<Rightarrow> (True, self)
           | Some i \<Rightarrow>
               (case usc_file_mtime env real of
                  None \<Rightarrow> (True, self)
                | Some mt \<Rightarrow>
                    if force then (True, self)
                    else if mtime (entry self ! i) < mt then (True, self)
                    else (False, self))))"

text \<open>The mtime recorded for a path, read off the chain as a table (first record wins).\<close>

definition stored_mtime :: "UscStateTracker \<Rightarrow> string \<Rightarrow> int option" where
  "stored_mtime self path = map_of (map (\<lambda>e. (ptr e, mtime e)) (entry self)) path"

definition tracked :: "UscStateTracker \<Rightarrow> string set" where
  "tracked self = set (map ptr (entry self))"

subsection \<open>Reading decimal numbers: strtoll\<close>

definition isspace :: "char \<Rightarrow> bool" where
  "isspace c = (c = CHR '' '' \<or> c = CHR 0x09 \<or> c = CHR 0x0A \<or> c = CHR 0x0B
     \<or> c = CHR 0x0C \<or> c = CHR 0x0D)"

definition isdigit :: "char \<Rightarrow> bool" where
  "isdigit c = (48 \<le> (of_char c :: nat) \<and> (of_char c :: nat) \<le> 57)"

definition digit_val :: "char \<Rightarrow> int" where
  "digit_val c = int (of_char c) - 48"

text \<open>
  \<open>strtoll(nptr, &endptr, 10)\<close> on a C string: white space, an optional sign, then the
  longest run of digits. The result is the value (saturated at the ends of the 64-bit
  range), the end pointer as an offset into the string, and the errno it stores, if any.
  The end pointer is never NULL: without digits it is \<open>nptr\<close> itself.
\<close>

definition strtoll :: "int option \<Rightarrow> string \<Rightarrow> int \<times> nat option \<times> int option" where
  "strtoll noconv nptr =
     (let s1 = dropWhile isspace nptr;
          neg = (case s1 of [] \<Rightarrow> False | c # _ \<Rightarrow> c = CHR ''-'');
          s2 = (case s1 of [] \<Rightarrow> [] | c # r \<Rightarrow> if c = CHR ''-'' \<or> c = CHR ''+'' then r else s1);
          ds = takeWhile isdigit s2
      in if ds = [] then (0, Some 0, noconv)
         else
           let v = foldl (\<lambda>a c. 10 * a + digit_val c) 0 ds;
               sv = (if neg then - v else v);
               endp = length nptr - length s2 + length ds
           in if LLONG_MAX < sv then (LLONG_MAX, Some endp, Some ERANGE)
              else if sv < LLONG_MIN then (LLONG_MIN, Some endp, Some ERANGE)
              else (sv, Some endp, None))"

subsection \<open>Loading the state file\<close>

text \<open>
  \<open>getline\<close>: the bytes up to and including the next newline, or up to the end of the
  file; nothing (the C function returns -1) at the end of the file.
\<close>

definition getline :: "string \<Rightarrow> (string \<times> string) option" where
  "getline stream =
     (if stream = [] then None
      else (case dropWhile (\<lambda>b. b \<noteq> NL) stream of
              [] \<Rightarrow> Some (stream, [])
            | nl # rest \<Rightarrow> Some (takeWhile (\<lambda>b. b \<noteq> NL) stream @ [nl], rest)))"

text \<open>\<open>memchr(bfr, c, n)\<close> over the whole list: the offset of the first occurrence.\<close>

fun memchr :: "string \<Rightarrow> char \<Rightarrow> nat option" where
  "memchr [] c = None"
| "memchr (b # bs) c = (if b = c then Some 0 else map_option Suc (memchr bs c))"

text \<open>
  One turn of the loop of \<open>usc_state_tracker_load\<close>. The state is errno, the number of
  calls of \<open>usc_state_tracker_put_entry\<close> made so far (the allocation oracle \<open>oom\<close> is
  asked by that number), and the tracker. \<open>Break\<close> is the \<open>break\<close> statement; \<open>Continue\<close>
  covers \<open>continue\<close> and the label \<open>next\<close>, which differ only in freeing the buffer.
\<close>

datatype 'a flow = Continue 'a | Break 'a

type_synonym load_state = "int \<times> nat \<times> UscStateTracker"

definition load_line ::
  "fs \<Rightarrow> (nat \<Rightarrow> bool \<times> bool) \<Rightarrow> string \<Rightarrow> load_state \<Rightarrow> load_state flow" where
  "load_line env oom raw st =
     (case st of (errno, k, self) \<Rightarrow>
        if length raw < 1 then Continue (errno, k, self)
        else
          let bfr = (if last raw = NL then butlast raw else raw) in
          if (case bfr of [] \<Rightarrow> False | b # _ \<Rightarrow> b = CHR ''#'') then Continue (errno, k, self)
          else
            (case memchr bfr CHR '':'' of
               None \<Rightarrow> Break (EINVAL, k, self)
             | Some c \<Rightarrow>
                 if c < 1 then Break (EINVAL, k, self)
                 else
                   let snd_path = cstr (drop (Suc c) bfr) in
                   (case strtoll (strtoll_noconv env) (cstr (take c bfr)) of
                      (t, part, stored) \<Rightarrow>
                        let errno' = (case stored of None \<Rightarrow> errno | Some e \<Rightarrow> e) in
                        if part = None then Break (EINVAL, k, self)
                        else if \<not> usc_file_exists env snd_path then Continue (0, k, self)
                        else
                          (case usc_state_tracker_put_entry (fst (oom k)) (snd (oom k))
                                  self snd_path t of
                             (ok, self') \<Rightarrow>
                               if \<not> ok then Break (EINVAL, Suc k, self')
                               else Continue (errno', Suc k, self')))))"

function load_loop :: "fs \<Rightarrow> (nat \<Rightarrow> bool \<times> bool) \<Rightarrow> string \<Rightarrow> load_state \<Rightarrow> load_state" where
  "load_loop env oom stream st =
     (case getline stream of
        None \<Rightarrow> st
      | Some (raw, rest) \<Rightarrow>
          (case load_line env oom raw st of
             Break st' \<Rightarrow> st'
           | Continue st' \<Rightarrow> load_loop env oom rest st'))"
  by pat_completeness auto
termination
proof (relation "measure (\<lambda>(env, oom, stream, st). length stream)")
  fix env :: fs and oom :: "nat \<Rightarrow> bool \<times> bool" and stream :: string
    and st :: load_state and x2 raw rest and st' :: load_state
  assume g: "getline stream = Some x2" "(raw, rest) = x2"
  have "length (dropWhile (\<lambda>b. b \<noteq> NL) stream) \<le> length stream"
    by (rule length_dropWhile_le)
  moreover from g have "getline stream = Some (raw, rest)"
    by simp
  ultimately have "length rest < length stream"
    by (auto simp: getline_def split: if_splits list.splits)
  then show "((env, oom, rest, st'), (env, oom, stream, st))
      \<in> measure (\<lambda>(env, oom, stream, st). length stream)"
    by simp
qed simp

declare load_loop.simps [simp del]

text \<open>
  \<open>usc_state_tracker_load\<close>. After a successful fopen errno is 0; after the loop any
  other errno empties the chain (\<open>usc_state_entry_free\<close>) and fails the call.
\<close>

definition usc_state_tracker_load ::
  "fs \<Rightarrow> (nat \<Rightarrow> bool \<times> bool) \<Rightarrow> UscStateTracker \<Rightarrow> bool \<times> UscStateTracker" where
  "usc_state_tracker_load env oom self =
     (case fopen_r env (state_file self) of
        Inl e \<Rightarrow> if e = ENOENT then (True, self) else (False, self)
      | Inr content \<Rightarrow>
          (case load_loop env oom content (0, 0, self) of
             (errno, k, self') \<Rightarrow>
               if errno \<noteq> 0 then (False, self'\<lparr>entry := []\<rparr>) else (True, self')))"

subsection \<open>Writing the state file\<close>

text \<open>\<open>%ld\<close> of fprintf: the decimal digits, with a minus sign for a negative number.\<close>

definition digit_char :: "nat \<Rightarrow> char" where
  "digit_char d = ''0123456789'' ! d"

fun show_nat :: "nat \<Rightarrow> string" where
  "show_nat n = (if n < 10 then [digit_char n] else show_nat (n div 10) @ [digit_char (n mod 10)])"

declare show_nat.simps [simp del]

definition show_int :: "int \<Rightarrow> string" where
  "show_int i = (if i < 0 then CHR ''-'' # show_nat (nat (- i)) else show_nat (nat i))"

definition header :: string where
  "header = ''# This file is automatically generated. DO NOT EDIT'' @ [NL]"

text \<open>
  The walk over the nodes in \<open>usc_state_tracker_write\<close>: \<open>k\<close> counts the nodes visited,
  \<open>out\<close> is what has been written to the file so far. A node whose path is gone is
  skipped; a failing fprintf ends the call.
\<close>

fun write_nodes :: "fs \<Rightarrow> nat \<Rightarrow> UscStateEntry list \<Rightarrow> string \<Rightarrow> bool \<times> string" where
  "write_nodes env k [] out = (True, out)"
| "write_nodes env k (e # es) out =
     (if \<not> usc_file_exists env (ptr e) then write_nodes env (Suc k) es out
      else if \<not> fprintf_ok env k then (False, out)
      else write_nodes env (Suc k) es
             (out @ show_int (mtime e) @ [CHR '':''] @ ptr e @ [NL]))"

text \<open>
  \<open>usc_state_tracker_write\<close>; the macro USYSCONF_TRACK_DIR of config.h is a parameter.
  The result is the return value and the content of the state file, if it was opened.
\<close>

definition usc_state_tracker_write ::
  "fs \<Rightarrow> string \<Rightarrow> UscStateTracker \<Rightarrow> bool \<times> string option" where
  "usc_state_tracker_write env track_dir self =
     (if \<not> usc_file_exists env track_dir \<and> \<not> mkdir_ok env then (False, None)
      else if \<not> fopen_w_ok env then (False, None)
      else (case write_nodes env 0 (entry self) header of
              (ok, out) \<Rightarrow> (ok, Some out)))"

subsection \<open>Example filesystems\<close>

text \<open>
  \<open>fs_of files status\<close> is a filesystem in which exactly the listed paths exist, each
  its own canonical form, with the listed modification times; opening the state file
  gives \<open>status\<close>; the library calls succeed and strtoll behaves as in glibc.
\<close>

definition fs_of :: "(string \<times> int) list \<Rightarrow> int + string \<Rightarrow> fs" where
  "fs_of files status =
     \<lparr>realpath = (\<lambda>p. map_option (\<lambda>_. p) (map_of files p)),
      stat = map_of files,
      usc_file_mtime = map_of files,
      usc_file_exists = (\<lambda>p. map_of files p \<noteq> None),
      fopen_r = (\<lambda>_. status),
      mkdir_ok = True,
      fopen_w_ok = True,
      fprintf_ok = (\<lambda>_. True),
      strtoll_noconv = None\<rparr>"

definition tracker_of :: "(string \<times> int) list \<Rightarrow> UscStateTracker" where
  "tracker_of recs = \<lparr>state_file = ''/var/status'', entry = map (\<lambda>(p, m). \<lparr>ptr = p, mtime = m\<rparr>) recs\<rparr>"

subsection \<open>Files as lines, call sequences\<close>

text \<open>
  Vocabulary of the statements below. \<open>unlines\<close> is the file made of the given
  lines, each ended by a newline. A comment line starts with the byte \<open>#\<close>. The loop
  of \<open>usc_state_tracker_load\<close> breaks off with EINVAL at a line that is no comment and
  has no colon, or has its first colon in the first byte: \<open>fatal_line\<close>.
\<close>

definition unlines :: "string list \<Rightarrow> string" where
  "unlines ls = concat (map (\<lambda>l. l @ [NL]) ls)"

definition is_comment :: "string \<Rightarrow> bool" where
  "is_comment l = (case l of [] \<Rightarrow> False | b # _ \<Rightarrow> b = CHR ''#'')"

definition fatal_line :: "string \<Rightarrow> bool" where
  "fatal_line l = (if is_comment l then False
     else (memchr l CHR '':'' = None \<or> memchr l CHR '':'' = Some 0))"

text \<open>
  A client of the tracker makes a sequence of calls, each on the filesystem and with the
  allocator it finds at that moment. \<open>run\<close> is the tracker after the calls,
  \<open>succeeds\<close> says that every call returned success.
\<close>

datatype call =
  RecordPath fs bool bool string
| Load fs "nat \<Rightarrow> bool \<times> bool"

fun perform :: "call \<Rightarrow> UscStateTracker \<Rightarrow> bool \<times> UscStateTracker" where
  "perform (RecordPath env calloc_ok strdup_ok path) self =
     usc_state_tracker_push_path env calloc_ok strdup_ok self path"
| "perform (Load env oom) self = usc_state_tracker_load env oom self"

fun run :: "call list \<Rightarrow> UscStateTracker \<Rightarrow> UscStateTracker" where
  "run [] self = self"
| "run (c # cs) self = run cs (snd (perform c self))"

fun succeeds :: "call list \<Rightarrow> UscStateTracker \<Rightarrow> bool" where
  "succeeds [] self = True"
| "succeeds (c # cs) self = (fst (perform c self) \<and> succeeds cs (snd (perform c self)))"

text \<open>The canonical path a record-path call works on, if canonicalization succeeds.\<close>

fun canonical :: "call \<Rightarrow> string option" where
  "canonical (RecordPath env calloc_ok strdup_ok path) = realpath env path"
| "canonical (Load env oom) = None"

fun is_record_path :: "call \<Rightarrow> bool" where
  "is_record_path (RecordPath env calloc_ok strdup_ok path) = True"
| "is_record_path (Load env oom) = False"

text \<open>The record line that fprintf writes for a node, without its newline.\<close>

definition record_line :: "UscStateEntry \<Rightarrow> string" where
  "record_line e = show_int (mtime e) @ [CHR '':''] @ ptr e"

section \<open>Properties\<close>

subsection \<open>The chain as a table\<close>

lemma lookup_chain_None: "lookup_chain es p = None \<longleftrightarrow> p \<notin> ptr ` set es"
  by (induction es) auto

lemma in_chain_iff: "p \<in> ptr ` set es \<longleftrightarrow> (\<exists>i. lookup_chain es p = Some i)"
  using lookup_chain_None [of es p] by auto

lemma lookup_chain_Some:
  "lookup_chain es p = Some i \<Longrightarrow> i < length es \<and> ptr (es ! i) = p"
  by (induction es arbitrary: i) (auto split: if_splits)

lemma lookup_chain_map_of:
  "map_of (map (\<lambda>e. (ptr e, mtime e)) es) p = map_option (\<lambda>i. mtime (es ! i)) (lookup_chain es p)"
  by (induction es) (auto simp: option.map_comp comp_def)

subsection \<open>needs-update\<close>

text \<open>
  C1. The decision table of needs-update, first matching row winning: a path that does
  not canonicalize gives false; else an untracked canonical path gives true; else a
  failing \<open>usc_file_mtime\<close> gives true; else force gives true; else a stored mtime
  strictly below the observed one gives true; else (stored equal or greater) the answer
  is false. In particular force gives true whenever the path canonicalizes.
\<close>

theorem needs_update_decision_order:
  fixes env self path force
  defines "res \<equiv> fst (usc_state_tracker_needs_update env self path force)"
  shows "(realpath env path = None \<longrightarrow> \<not> res)
    \<and> (\<forall>real. realpath env path = Some real \<longrightarrow>
          (real \<notin> tracked self \<longrightarrow> res)
        \<and> (real \<in> tracked self \<longrightarrow> usc_file_mtime env real = None \<longrightarrow> res)
        \<and> (\<forall>s m. stored_mtime self real = Some s \<longrightarrow> usc_file_mtime env real = Some m \<longrightarrow>
              (force \<longrightarrow> res)
            \<and> (\<not> force \<longrightarrow> s < m \<longrightarrow> res)
            \<and> (\<not> force \<longrightarrow> m \<le> s \<longrightarrow> \<not> res))
        \<and> (force \<longrightarrow> res))"
  unfolding res_def usc_state_tracker_needs_update_def usc_state_tracker_lookup_def
    tracked_def stored_mtime_def lookup_chain_map_of
  by (auto split: option.splits simp: in_chain_iff)

theorem needs_update_decision_order_witness:
  "\<not> fst (usc_state_tracker_needs_update (fs_of [] (Inl ENOENT))
          (tracker_of [(''/etc/foo'', 1000)]) ''/etc/foo'' True)
   \<and> fst (usc_state_tracker_needs_update (fs_of [(''/etc/foo'', 1000)] (Inl ENOENT))
          (tracker_of []) ''/etc/foo'' False)
   \<and> fst (usc_state_tracker_needs_update
          ((fs_of [(''/etc/foo'', 1000)] (Inl ENOENT))\<lparr>usc_file_mtime := \<lambda>_. None\<rparr>)
          (tracker_of [(''/etc/foo'', 1000)]) ''/etc/foo'' False)
   \<and> fst (usc_state_tracker_needs_update (fs_of [(''/etc/foo'', 1000)] (Inl ENOENT))
          (tracker_of [(''/etc/foo'', 2000)]) ''/etc/foo'' True)
   \<and> fst (usc_state_tracker_needs_update (fs_of [(''/etc/foo'', 1500)] (Inl ENOENT))
          (tracker_of [(''/etc/foo'', 1000)]) ''/etc/foo'' False)
   \<and> \<not> fst (usc_state_tracker_needs_update (fs_of [(''/etc/foo'', 1000)] (Inl ENOENT))
          (tracker_of [(''/etc/foo'', 1000)]) ''/etc/foo'' False)
   \<and> \<not> fst (usc_state_tracker_needs_update (fs_of [(''/etc/foo'', 1000)] (Inl ENOENT))
          (tracker_of [(''/etc/foo'', 2000)]) ''/etc/foo'' False)"
  using
    needs_update_decision_order [of "fs_of [] (Inl ENOENT)" "''/etc/foo''"
      "tracker_of [(''/etc/foo'', 1000)]" True]
    needs_update_decision_order [of "fs_of [(''/etc/foo'', 1000)] (Inl ENOENT)" "''/etc/foo''"
      "tracker_of []" False]
    needs_update_decision_order
      [of "(fs_of [(''/etc/foo'', 1000)] (Inl ENOENT))\<lparr>usc_file_mtime := \<lambda>_. None\<rparr>"
        "''/etc/foo''" "tracker_of [(''/etc/foo'', 1000)]" False]
    needs_update_decision_order [of "fs_of [(''/etc/foo'', 1000)] (Inl ENOENT)" "''/etc/foo''"
      "tracker_of [(''/etc/foo'', 2000)]" True]
    needs_update_decision_order [of "fs_of [(''/etc/foo'', 1500)] (Inl ENOENT)" "''/etc/foo''"
      "tracker_of [(''/etc/foo'', 1000)]" False]
    needs_update_decision_order [of "fs_of [(''/etc/foo'', 1000)] (Inl ENOENT)" "''/etc/foo''"
      "tracker_of [(''/etc/foo'', 1000)]" False]
    needs_update_decision_order [of "fs_of [(''/etc/foo'', 1000)] (Inl ENOENT)" "''/etc/foo''"
      "tracker_of [(''/etc/foo'', 2000)]" False]
  by (simp add: fs_of_def tracker_of_def tracked_def stored_mtime_def)

text \<open>
  C10. needs-update is a query: it leaves the tracker exactly as it found it, so a second
  call with the same arguments on the same filesystem gives the same answer.
\<close>

theorem needs_update_pure:
  "snd (usc_state_tracker_needs_update env self path force) = self
   \<and> fst (usc_state_tracker_needs_update env
          (snd (usc_state_tracker_needs_update env self path force)) path force)
     = fst (usc_state_tracker_needs_update env self path force)"
proof -
  have "snd (usc_state_tracker_needs_update env self path force) = self"
    unfolding usc_state_tracker_needs_update_def
    by (simp split: option.splits)
  then show ?thesis by simp
qed

subsection \<open>record-path\<close>

text \<open>
  C7. record-path is atomic on failure: when the path does not canonicalize, when stat of
  the canonical path fails, or when a node has to be made and calloc or strdup fails,
  the call returns failure and the tracker is what it was; and whenever the call returns
  failure the tracker is what it was.
\<close>

theorem push_path_failure_atomic:
  "((realpath env path = None
     \<or> (\<exists>dup. realpath env path = Some dup \<and> stat env dup = None)
     \<or> (\<exists>dup mt. realpath env path = Some dup \<and> stat env dup = Some mt
           \<and> dup \<notin> tracked self \<and> \<not> (calloc_ok \<and> strdup_ok)))
    \<longrightarrow> usc_state_tracker_push_path env calloc_ok strdup_ok self path = (False, self))
   \<and> (\<not> fst (usc_state_tracker_push_path env calloc_ok strdup_ok self path)
    \<longrightarrow> snd (usc_state_tracker_push_path env calloc_ok strdup_ok self path) = self)"
  unfolding usc_state_tracker_push_path_def usc_state_tracker_put_entry_def
    usc_state_tracker_lookup_def tracked_def
  by (auto split: option.splits simp: in_chain_iff)

theorem push_path_failure_atomic_witness:
  "usc_state_tracker_push_path (fs_of [] (Inl ENOENT)) True True
       (tracker_of [(''/etc/bar'', 7)]) ''/etc/foo'' = (False, tracker_of [(''/etc/bar'', 7)])
   \<and> usc_state_tracker_push_path ((fs_of [(''/etc/foo'', 1000)] (Inl ENOENT))\<lparr>stat := \<lambda>_. None\<rparr>)
       True True (tracker_of [(''/etc/bar'', 7)]) ''/etc/foo''
       = (False, tracker_of [(''/etc/bar'', 7)])
   \<and> usc_state_tracker_push_path (fs_of [(''/etc/foo'', 1000)] (Inl ENOENT)) False True
       (tracker_of [(''/etc/bar'', 7)]) ''/etc/foo'' = (False, tracker_of [(''/etc/bar'', 7)])
   \<and> usc_state_tracker_push_path (fs_of [(''/etc/foo'', 1000)] (Inl ENOENT)) True False
       (tracker_of [(''/etc/bar'', 7)]) ''/etc/foo'' = (False, tracker_of [(''/etc/bar'', 7)])"
  using
    push_path_failure_atomic [of "fs_of [] (Inl ENOENT)" "''/etc/foo''"
      "tracker_of [(''/etc/bar'', 7)]" True True]
    push_path_failure_atomic
      [of "(fs_of [(''/etc/foo'', 1000)] (Inl ENOENT))\<lparr>stat := \<lambda>_. None\<rparr>" "''/etc/foo''"
        "tracker_of [(''/etc/bar'', 7)]" True True]
    push_path_failure_atomic [of "fs_of [(''/etc/foo'', 1000)] (Inl ENOENT)" "''/etc/foo''"
      "tracker_of [(''/etc/bar'', 7)]" False True]
    push_path_failure_atomic [of "fs_of [(''/etc/foo'', 1000)] (Inl ENOENT)" "''/etc/foo''"
      "tracker_of [(''/etc/bar'', 7)]" True False]
  by (simp add: fs_of_def tracker_of_def tracked_def)

subsection \<open>load: opening the state file\<close>

text \<open>
  C9. A missing state file is not an error: when fopen fails with ENOENT, load returns
  success and the tracker is unchanged; when fopen fails with any other errno, load
  returns failure.
\<close>

theorem load_missing_file:
  "(fopen_r env (state_file self) = Inl ENOENT \<longrightarrow>
       usc_state_tracker_load env oom self = (True, self))
   \<and> (\<forall>e. fopen_r env (state_file self) = Inl e \<longrightarrow> e \<noteq> ENOENT \<longrightarrow>
       \<not> fst (usc_state_tracker_load env oom self))"
  unfolding usc_state_tracker_load_def by simp

theorem load_missing_file_witness:
  "usc_state_tracker_load (fs_of [] (Inl ENOENT)) (\<lambda>_. (True, True))
       (tracker_of [(''/etc/bar'', 7)]) = (True, tracker_of [(''/etc/bar'', 7)])
   \<and> \<not> fst (usc_state_tracker_load (fs_of [] (Inl 13)) (\<lambda>_. (True, True))
       (tracker_of [(''/etc/bar'', 7)]))"
  using
    load_missing_file [of "fs_of [] (Inl ENOENT)" "tracker_of [(''/etc/bar'', 7)]"
      "\<lambda>_. (True, True)"]
    load_missing_file [of "fs_of [] (Inl 13)" "tracker_of [(''/etc/bar'', 7)]"
      "\<lambda>_. (True, True)"]
  by (simp add: fs_of_def ENOENT_def)

subsection \<open>load: the loop over the lines\<close>

lemma getline_Nil: "getline [] = None"
  by (simp add: getline_def)

lemma getline_line:
  assumes "NL \<notin> set l"
  shows "getline (l @ NL # rest) = Some (l @ [NL], rest)"
proof -
  from assms have all: "\<And>b. b \<in> set l \<Longrightarrow> b \<noteq> NL" by auto
  have d: "dropWhile (\<lambda>b. b \<noteq> NL) (l @ NL # rest) = NL # rest"
    using all by (simp add: dropWhile_append2)
  have t: "takeWhile (\<lambda>b. b \<noteq> NL) (l @ NL # rest) = l"
    using all by (simp add: takeWhile_append2)
  show ?thesis by (simp add: getline_def d t)
qed

lemma getline_last: "NL \<notin> set l \<Longrightarrow> l \<noteq> [] \<Longrightarrow> getline l = Some (l, [])"
proof -
  assume a: "NL \<notin> set l" "l \<noteq> []"
  then have d: "dropWhile (\<lambda>b. b \<noteq> NL) l = []" by auto
  show ?thesis using a(2) by (simp add: getline_def d)
qed

lemma load_loop_Nil: "load_loop env oom [] st = st"
  by (simp add: load_loop.simps getline_Nil)

lemma load_loop_line:
  "NL \<notin> set l \<Longrightarrow> load_loop env oom (l @ NL # rest) st =
     (case load_line env oom (l @ [NL]) st of
        Break st' \<Rightarrow> st' | Continue st' \<Rightarrow> load_loop env oom rest st')"
  by (subst load_loop.simps) (simp add: getline_line)

lemma load_loop_last:
  "NL \<notin> set l \<Longrightarrow> l \<noteq> [] \<Longrightarrow> load_loop env oom l st =
     (case load_line env oom l st of Break st' \<Rightarrow> st' | Continue st' \<Rightarrow> st')"
  by (subst load_loop.simps) (simp add: getline_last load_loop_Nil split: flow.splits)

lemma load_line_comment:
  "is_comment l \<Longrightarrow> load_line env oom (l @ [NL]) st = Continue st"
  by (cases l) (auto simp: load_line_def is_comment_def split: prod.splits)

lemma load_line_comment_last:
  "is_comment l \<Longrightarrow> NL \<notin> set l \<Longrightarrow> load_line env oom l st = Continue st"
  by (cases l) (auto simp: load_line_def is_comment_def split: prod.splits)

lemma load_line_fatal:
  "fatal_line l \<Longrightarrow> load_line env oom (l @ [NL]) st = Break (EINVAL, snd st)"
  by (auto simp: load_line_def fatal_line_def is_comment_def split: prod.splits list.splits if_splits)

lemma load_line_Break:
  "load_line env oom raw st = Break st' \<Longrightarrow> fst st' = EINVAL"
  by (auto simp: load_line_def Let_def split: prod.splits if_splits option.splits)

lemma put_entry_state_file:
  "usc_state_tracker_put_entry c s self p m = (ok, self') \<Longrightarrow> state_file self' = state_file self"
  by (auto simp: usc_state_tracker_put_entry_def split: option.splits if_splits)

lemma load_line_state_file:
  "load_line env oom raw st = Break st' \<or> load_line env oom raw st = Continue st'
    \<Longrightarrow> state_file (snd (snd st')) = state_file (snd (snd st))"
  by (auto simp: load_line_def Let_def split: prod.splits if_splits option.splits
        dest: put_entry_state_file)

lemma load_loop_state_file:
  "state_file (snd (snd (load_loop env oom stream st))) = state_file (snd (snd st))"
proof (induction env oom stream st rule: load_loop.induct)
  case (1 env oom stream st)
  show ?case
  proof (cases "getline stream")
    case None
    then show ?thesis by (subst load_loop.simps) simp
  next
    case (Some x2)
    obtain raw rest where x2: "x2 = (raw, rest)" by (cases x2)
    show ?thesis
    proof (cases "load_line env oom raw st")
      case (Continue st')
      have "state_file (snd (snd (load_loop env oom rest st'))) = state_file (snd (snd st'))"
        using "1.IH" [OF Some x2 [symmetric] Continue] .
      moreover have "state_file (snd (snd st')) = state_file (snd (snd st))"
        using load_line_state_file Continue by blast
      ultimately show ?thesis using Some x2 Continue by (subst load_loop.simps) simp
    next
      case (Break st')
      have "state_file (snd (snd st')) = state_file (snd (snd st))"
        using load_line_state_file Break by blast
      then show ?thesis using Some x2 Break by (subst load_loop.simps) simp
    qed
  qed
qed

lemma load_loop_fatal:
  assumes "\<forall>l \<in> set pre. NL \<notin> set l" "NL \<notin> set bad" "fatal_line bad"
  shows "fst (load_loop env oom (unlines pre @ bad @ NL # post) st) = EINVAL"
  using assms(1)
proof (induction pre arbitrary: st)
  case Nil
  show ?case using assms(2,3)
    by (simp add: unlines_def load_loop_line load_line_fatal)
next
  case (Cons l pre)
  then have l: "NL \<notin> set l" and pre: "\<forall>l \<in> set pre. NL \<notin> set l" by simp_all
  have eq: "unlines (l # pre) @ bad @ NL # post = l @ NL # (unlines pre @ bad @ NL # post)"
    by (simp add: unlines_def)
  show ?case
  proof (cases "load_line env oom (l @ [NL]) st")
    case (Continue st')
    then show ?thesis using Cons.IH [OF pre] l by (simp add: eq load_loop_line del: append_assoc)
  next
    case (Break st')
    then show ?thesis using load_line_Break [OF Break] l by (simp add: eq load_loop_line)
  qed
qed

lemma load_loop_comment:
  assumes "\<forall>l \<in> set pre. NL \<notin> set l" "NL \<notin> set c" "is_comment c"
  shows "load_loop env oom (unlines pre @ c @ NL # post) st
       = load_loop env oom (unlines pre @ post) st"
  using assms(1)
proof (induction pre arbitrary: st)
  case Nil
  show ?case using assms(2,3)
    by (simp add: unlines_def load_loop_line load_line_comment)
next
  case (Cons l pre)
  then have l: "NL \<notin> set l" and pre: "\<forall>l \<in> set pre. NL \<notin> set l" by simp_all
  have eq: "unlines (l # pre) @ rest = l @ NL # (unlines pre @ rest)" for rest
    by (simp add: unlines_def)
  show ?case
    using Cons.IH [OF pre] l by (simp add: eq load_loop_line split: flow.splits)
qed

lemma load_line_fatal_last:
  "fatal_line l \<Longrightarrow> NL \<notin> set l \<Longrightarrow> l \<noteq> [] \<Longrightarrow> load_line env oom l st = Break (EINVAL, snd st)"
proof -
  assume a: "fatal_line l" "NL \<notin> set l" "l \<noteq> []"
  then have "last l \<noteq> NL" using last_in_set by metis
  with a show ?thesis
    by (auto simp: load_line_def fatal_line_def is_comment_def split: prod.splits list.splits if_splits)
qed

lemma load_loop_fatal_last:
  assumes "\<forall>l \<in> set pre. NL \<notin> set l" "NL \<notin> set bad" "fatal_line bad" "bad \<noteq> []"
  shows "fst (load_loop env oom (unlines pre @ bad) st) = EINVAL"
  using assms(1)
proof (induction pre arbitrary: st)
  case Nil
  show ?case using assms(2,3,4)
    by (simp add: unlines_def load_loop_last load_line_fatal_last)
next
  case (Cons l pre)
  then have l: "NL \<notin> set l" and pre: "\<forall>l \<in> set pre. NL \<notin> set l" by simp_all
  have eq: "unlines (l # pre) @ bad = l @ NL # (unlines pre @ bad)"
    by (simp add: unlines_def)
  show ?case
  proof (cases "load_line env oom (l @ [NL]) st")
    case (Continue st')
    then show ?thesis using Cons.IH [OF pre] l by (simp add: eq load_loop_line del: append_assoc)
  next
    case (Break st')
    then show ?thesis using load_line_Break [OF Break] l by (simp add: eq load_loop_line)
  qed
qed

lemma load_failure:
  assumes "fopen_r env (state_file self) = Inr content"
    and "fst (load_loop env oom content (0, 0, self)) \<noteq> 0"
  shows "usc_state_tracker_load env oom self = (False, self\<lparr>entry := []\<rparr>)"
proof -
  obtain e k self' where r: "load_loop env oom content (0, 0, self) = (e, k, self')"
    by (cases "load_loop env oom content (0, 0, self)") auto
  have "state_file self' = state_file self"
    using load_loop_state_file [of env oom content "(0, 0, self)"] r by simp
  then have "self'\<lparr>entry := []\<rparr> = self\<lparr>entry := []\<rparr>" by simp
  with assms r show ?thesis by (simp add: usc_state_tracker_load_def)
qed

text \<open>
  Comment lines are skipped: a line starting with \<open>#\<close>, put between complete lines of
  any state file, does not change what load returns.
\<close>

lemma load_line_fopen_r:
  "load_line (env\<lparr>fopen_r := f\<rparr>) oom raw st = load_line env oom raw st"
proof -
  have a: "strtoll_noconv (env\<lparr>fopen_r := f\<rparr>) = strtoll_noconv env"
    and b: "usc_file_exists (env\<lparr>fopen_r := f\<rparr>) = usc_file_exists env"
    by simp_all
  show ?thesis unfolding load_line_def a b ..
qed

lemma load_loop_fopen_r:
  "load_loop (env\<lparr>fopen_r := f\<rparr>) oom stream st = load_loop env oom stream st"
proof (induction env oom stream st rule: load_loop.induct)
  case (1 env oom stream st)
  show ?case
  proof (cases "getline stream")
    case None
    then show ?thesis by (simp add: load_loop.simps [of _ oom stream st])
  next
    case (Some x2)
    obtain raw rest where x2: "x2 = (raw, rest)" by (cases x2)
    show ?thesis
    proof (cases "load_line env oom raw st")
      case (Continue st')
      from "1.IH" [OF Some x2 [symmetric] Continue] Some x2 Continue show ?thesis
        by (simp add: load_loop.simps [of _ oom stream st] load_line_fopen_r)
    next
      case (Break st')
      with Some x2 show ?thesis
        by (simp add: load_loop.simps [of _ oom stream st] load_line_fopen_r)
    qed
  qed
qed

lemma load_comment_lines_skipped:
  assumes "\<forall>l \<in> set pre. NL \<notin> set l" "NL \<notin> set c" "is_comment c"
  shows "usc_state_tracker_load (env\<lparr>fopen_r := \<lambda>_. Inr (unlines pre @ c @ NL # post)\<rparr>) oom self
       = usc_state_tracker_load (env\<lparr>fopen_r := \<lambda>_. Inr (unlines pre @ post)\<rparr>) oom self"
  using load_loop_comment [OF assms, of env oom post "(0, 0, self)"]
  by (simp add: usc_state_tracker_load_def load_loop_fopen_r)

subsection \<open>load: parse errors\<close>

text \<open>
  What the loop does reject. Once the state file is open, a failing load leaves the
  tracker empty, whatever it held before the call and whatever the earlier lines merged;
  and a file with a line that the loop rejects (a line that is no comment and has no
  colon, or has the colon in its first byte), after any complete lines, makes load
  return failure with the tracker emptied.
\<close>

lemma load_all_or_nothing:
  assumes "fopen_r env (state_file self) = Inr content"
  shows "(\<not> fst (usc_state_tracker_load env oom self) \<longrightarrow>
            snd (usc_state_tracker_load env oom self) = self\<lparr>entry := []\<rparr>)
    \<and> ((\<forall>l \<in> set pre. NL \<notin> set l) \<and> NL \<notin> set bad \<and> fatal_line bad
          \<and> (content = unlines pre @ bad @ NL # post \<or> (content = unlines pre @ bad \<and> bad \<noteq> []))
        \<longrightarrow> usc_state_tracker_load env oom self = (False, self\<lparr>entry := []\<rparr>))"
proof (intro conjI impI)
  assume "\<not> fst (usc_state_tracker_load env oom self)"
  then have "fst (load_loop env oom content (0, 0, self)) \<noteq> 0"
    using assms by (auto simp: usc_state_tracker_load_def split: prod.splits if_splits)
  then show "snd (usc_state_tracker_load env oom self) = self\<lparr>entry := []\<rparr>"
    using load_failure [OF assms] by simp
next
  assume h: "(\<forall>l \<in> set pre. NL \<notin> set l) \<and> NL \<notin> set bad \<and> fatal_line bad
          \<and> (content = unlines pre @ bad @ NL # post \<or> (content = unlines pre @ bad \<and> bad \<noteq> []))"
  then have "fst (load_loop env oom content (0, 0, self)) = EINVAL"
    using load_loop_fatal [of pre bad env oom post] load_loop_fatal_last [of pre bad env oom]
    by blast
  then show "usc_state_tracker_load env oom self = (False, self\<lparr>entry := []\<rparr>)"
    using load_failure [OF assms] by (simp add: EINVAL_def)
qed

lemma load_all_or_nothing_example:
  "usc_state_tracker_load
      (fs_of [(''/etc/foo'', 1000)] (Inr (unlines [''# header'', ''1000:/etc/foo'', ''no colon here'', ''7:/etc/foo''])))
      (\<lambda>_. (True, True)) (tracker_of [(''/etc/bar'', 7)]) = (False, tracker_of [])"
  using load_all_or_nothing
    [of "fs_of [(''/etc/foo'', 1000)] (Inr (unlines [''# header'', ''1000:/etc/foo'', ''no colon here'', ''7:/etc/foo'']))"
        "tracker_of [(''/etc/bar'', 7)]"
        "unlines [''# header'', ''1000:/etc/foo'', ''no colon here'', ''7:/etc/foo'']"
        "\<lambda>_. (True, True)" "[''# header'', ''1000:/etc/foo'']" "''no colon here''" "unlines [''7:/etc/foo'']"]
  by (simp add: fs_of_def tracker_of_def unlines_def fatal_line_def is_comment_def)

text \<open>
  C3. Blank lines are not skipped. The test \<open>read < 1\<close> of the loop comes before the
  newline is stripped, where an empty line has length 1, so the line goes on to memchr,
  which finds no colon. A valid file (header and one record) loads; with a blank line
  after the header, or at the end, load fails and the tracker is empty. Lines starting
  with \<open>#\<close> are skipped (lemma \<open>load_comment_lines_skipped\<close>).
\<close>

theorem load_blank_line_rejected:
  "usc_state_tracker_load
      (fs_of [(''/etc/foo'', 1000)] (Inr (header @ ''1000:/etc/foo'' @ [NL])))
      (\<lambda>_. (True, True)) (tracker_of []) = (True, tracker_of [(''/etc/foo'', 1000)])
   \<and> usc_state_tracker_load
      (fs_of [(''/etc/foo'', 1000)] (Inr (header @ [NL] @ ''1000:/etc/foo'' @ [NL])))
      (\<lambda>_. (True, True)) (tracker_of []) = (False, tracker_of [])
   \<and> usc_state_tracker_load
      (fs_of [(''/etc/foo'', 1000)] (Inr (header @ ''1000:/etc/foo'' @ [NL] @ [NL])))
      (\<lambda>_. (True, True)) (tracker_of []) = (False, tracker_of [])"
  by code_simp

text \<open>
  C4. A malformed mtime is not rejected. strtoll always stores an end pointer, so the
  test \<open>!part\<close> never holds: for the file \<open>notanumber:/x\<close>, with /x on disk, load returns
  success and records /x with mtime 0, also overwriting the mtime of an earlier
  well-formed line. Where strtoll stores EINVAL for a string without digits, a path that
  is gone resets errno, and load still returns success.
\<close>

theorem load_malformed_mtime_accepted:
  "usc_state_tracker_load (fs_of [(''/x'', 5)] (Inr (''notanumber:/x'' @ [NL])))
      (\<lambda>_. (True, True)) (tracker_of []) = (True, tracker_of [(''/x'', 0)])
   \<and> usc_state_tracker_load
      (fs_of [(''/x'', 5)] (Inr (''1000:/x'' @ [NL] @ ''notanumber:/x'' @ [NL])))
      (\<lambda>_. (True, True)) (tracker_of []) = (True, tracker_of [(''/x'', 0)])
   \<and> usc_state_tracker_load
      ((fs_of [] (Inr (''notanumber:/x'' @ [NL])))\<lparr>strtoll_noconv := Some EINVAL\<rparr>)
      (\<lambda>_. (True, True)) (tracker_of [(''/etc/bar'', 7)]) = (True, tracker_of [(''/etc/bar'', 7)])"
  by code_simp

text \<open>
  C5. An empty path field is not rejected. The test behind the message "Missing
  filename" is on the offset of the colon, that is on an empty mtime field. For the line
  \<open>123:\<close> the path is the empty string, which does not exist, so the line is dropped
  and load returns success, keeping what the tracker held and what earlier lines merged.
\<close>

theorem load_empty_path_skipped:
  "usc_state_tracker_load (fs_of [(''/etc/foo'', 1000)] (Inr (''123:'' @ [NL])))
      (\<lambda>_. (True, True)) (tracker_of [(''/etc/bar'', 7)]) = (True, tracker_of [(''/etc/bar'', 7)])
   \<and> usc_state_tracker_load
      (fs_of [(''/etc/foo'', 1000)] (Inr (''1000:/etc/foo'' @ [NL] @ ''123:'' @ [NL])))
      (\<lambda>_. (True, True)) (tracker_of []) = (True, tracker_of [(''/etc/foo'', 1000)])"
  by code_simp

text \<open>
  C6. All-or-nothing load does not hold for every parse error of the file format. An
  empty path field, a mtime without digits and a mtime out of the 64-bit range are not
  detected (the tests behind "Missing filename" and "Invalid timestamp" look at the
  wrong thing, and the ERANGE of strtoll is erased by a later line whose path is gone):
  load returns success and the tracker keeps the entries it held before the call and
  those merged from the other lines, next to the entry of the malformed line.
\<close>

theorem load_undetected_parse_error_keeps_entries:
  "usc_state_tracker_load
      (fs_of [(''/etc/foo'', 1000)] (Inr (unlines [''1000:/etc/foo'', ''123:''])))
      (\<lambda>_. (True, True)) (tracker_of [(''/etc/bar'', 7)])
     = (True, tracker_of [(''/etc/foo'', 1000), (''/etc/bar'', 7)])
   \<and> usc_state_tracker_load
      (fs_of [(''/x'', 5)] (Inr (unlines [''notanumber:/x''])))
      (\<lambda>_. (True, True)) (tracker_of [(''/etc/bar'', 7)])
     = (True, tracker_of [(''/x'', 0), (''/etc/bar'', 7)])
   \<and> usc_state_tracker_load
      (fs_of [(''/x'', 5)] (Inr (unlines [''99999999999999999999:/x'', ''1:/gone''])))
      (\<lambda>_. (True, True)) (tracker_of [])
     = (True, tracker_of [(''/x'', 9223372036854775807)])"
  by code_simp

subsection \<open>Uniqueness of paths\<close>

lemma lookup_chain_ptrs:
  "map ptr es' = map ptr es \<Longrightarrow> lookup_chain es' q = lookup_chain es q"
proof (induction es arbitrary: es')
  case Nil
  then show ?case by simp
next
  case (Cons e es)
  from Cons.prems obtain e' es'' where es': "es' = e' # es''" by (cases es') auto
  with Cons.prems have "ptr e' = ptr e" "map ptr es'' = map ptr es" by simp_all
  then show ?case using Cons.IH [of es''] by (simp add: es')
qed

lemma map_ptr_update:
  "i < length es \<Longrightarrow> map ptr (es[i := (es ! i)\<lparr>mtime := m\<rparr>]) = map ptr es"
  by (simp add: map_update list_update_same_conv)

lemma put_entry_present:
  assumes "usc_state_tracker_lookup self path = Some i"
  shows "usc_state_tracker_put_entry c s self path m
         = (True, self\<lparr>entry := (entry self)[i := (entry self ! i)\<lparr>mtime := m\<rparr>]\<rparr>)"
    and "i < length (entry self)" and "ptr (entry self ! i) = path"
  using assms lookup_chain_Some [of "entry self" path i]
  by (simp_all add: usc_state_tracker_put_entry_def usc_state_tracker_lookup_def)

lemma put_entry_absent:
  assumes "usc_state_tracker_lookup self path = None"
  shows "usc_state_tracker_put_entry c s self path m =
     (if c \<and> s then (True, self\<lparr>entry := \<lparr>ptr = path, mtime = m\<rparr> # entry self\<rparr>)
      else (False, self))"
    and "path \<notin> tracked self"
proof -
  show "usc_state_tracker_put_entry c s self path m =
     (if c \<and> s then (True, self\<lparr>entry := \<lparr>ptr = path, mtime = m\<rparr> # entry self\<rparr>)
      else (False, self))"
    by (simp add: usc_state_tracker_put_entry_def assms)
  show "path \<notin> tracked self"
    using assms lookup_chain_None [of "entry self" path]
    by (simp add: usc_state_tracker_lookup_def tracked_def)
qed

lemma put_entry_ptrs:
  assumes "usc_state_tracker_put_entry c s self path m = (ok, self')"
  shows "(path \<in> tracked self \<and> ok \<and> map ptr (entry self') = map ptr (entry self))
     \<or> (path \<notin> tracked self \<and> ok \<and> map ptr (entry self') = path # map ptr (entry self))
     \<or> (\<not> ok \<and> self' = self)"
proof (cases "usc_state_tracker_lookup self path")
  case None
  note a = put_entry_absent [OF None]
  show ?thesis
  proof (cases "c \<and> s")
    case True
    with assms a(1) [of c s m] have "ok" "self' = self\<lparr>entry := \<lparr>ptr = path, mtime = m\<rparr> # entry self\<rparr>"
      by simp_all
    with a(2) show ?thesis by simp
  next
    case False
    with assms a(1) [of c s m] have "\<not> ok" "self' = self" by auto
    then show ?thesis by simp
  qed
next
  case (Some i)
  note p = put_entry_present [OF Some]
  from assms p(1) [of c s m]
  have "ok" "self' = self\<lparr>entry := (entry self)[i := (entry self ! i)\<lparr>mtime := m\<rparr>]\<rparr>"
    by simp_all
  moreover have "path \<in> tracked self"
    using p(2,3) by (auto simp: tracked_def)
  ultimately show ?thesis using map_ptr_update [OF p(2)] by simp
qed

lemma put_entry_distinct:
  assumes "usc_state_tracker_put_entry c s self path m = (ok, self')"
    and "distinct (map ptr (entry self))"
  shows "distinct (map ptr (entry self'))"
proof -
  consider "map ptr (entry self') = map ptr (entry self)"
    | "path \<notin> tracked self" "map ptr (entry self') = path # map ptr (entry self)"
    | "self' = self"
    using put_entry_ptrs [OF assms(1)] by blast
  then show ?thesis
  proof cases
    case 1
    with assms(2) show ?thesis by simp
  next
    case 2
    with assms(2) show ?thesis by (simp add: tracked_def)
  next
    case 3
    with assms(2) show ?thesis by simp
  qed
qed

lemma put_entry_tracked:
  assumes "usc_state_tracker_put_entry c s self path m = (True, self')"
  shows "tracked self' = insert path (tracked self)"
proof -
  consider "path \<in> tracked self" "map ptr (entry self') = map ptr (entry self)"
    | "map ptr (entry self') = path # map ptr (entry self)"
    using put_entry_ptrs [OF assms] by blast
  then show ?thesis
  proof cases
    case 1
    have "tracked self' = tracked self" unfolding tracked_def 1(2) ..
    with 1(1) show ?thesis by blast
  next
    case 2
    show ?thesis unfolding tracked_def 2 by simp
  qed
qed

lemma put_entry_in_place:
  assumes "path \<in> tracked self"
  shows "\<exists>self'. usc_state_tracker_put_entry c s self path m = (True, self')
     \<and> map ptr (entry self') = map ptr (entry self)
     \<and> stored_mtime self' path = Some m
     \<and> (\<forall>q. q \<noteq> path \<longrightarrow> stored_mtime self' q = stored_mtime self q)"
proof -
  from assms obtain i where i: "usc_state_tracker_lookup self path = Some i"
    by (auto simp: tracked_def usc_state_tracker_lookup_def in_chain_iff)
  let ?es = "entry self"
  let ?es' = "?es[i := (?es ! i)\<lparr>mtime := m\<rparr>]"
  note p = put_entry_present [OF i]
  have ptrs: "map ptr ?es' = map ptr ?es" using p(2) by (rule map_ptr_update)
  have lk: "lookup_chain ?es' q = lookup_chain ?es q" for q
    using ptrs by (rule lookup_chain_ptrs)
  have "stored_mtime (self\<lparr>entry := ?es'\<rparr>) path = Some m"
    using i p(2) by (simp add: stored_mtime_def lookup_chain_map_of lk usc_state_tracker_lookup_def)
  moreover have "stored_mtime (self\<lparr>entry := ?es'\<rparr>) q = stored_mtime self q" if "q \<noteq> path" for q
  proof (cases "lookup_chain ?es q")
    case None
    then show ?thesis by (simp add: stored_mtime_def lookup_chain_map_of lk)
  next
    case (Some j)
    then have "ptr (?es ! j) = q" using lookup_chain_Some by blast
    with that p(3) have "j \<noteq> i" by auto
    with Some show ?thesis by (simp add: stored_mtime_def lookup_chain_map_of lk)
  qed
  ultimately show ?thesis using p(1) [of c s m] ptrs by auto
qed

lemma load_line_distinct:
  assumes "load_line env oom raw st = Break st' \<or> load_line env oom raw st = Continue st'"
    and "distinct (map ptr (entry (snd (snd st))))"
  shows "distinct (map ptr (entry (snd (snd st'))))"
  using assms
  by (auto simp: load_line_def Let_def split: prod.splits if_splits option.splits
        dest: put_entry_distinct)

lemma load_loop_distinct:
  "distinct (map ptr (entry (snd (snd st)))) \<Longrightarrow>
     distinct (map ptr (entry (snd (snd (load_loop env oom stream st)))))"
proof (induction env oom stream st rule: load_loop.induct)
  case (1 env oom stream st)
  show ?case
  proof (cases "getline stream")
    case None
    then show ?thesis using "1.prems" by (subst load_loop.simps) simp
  next
    case (Some x2)
    obtain raw rest where x2: "x2 = (raw, rest)" by (cases x2)
    show ?thesis
    proof (cases "load_line env oom raw st")
      case (Continue st')
      have "distinct (map ptr (entry (snd (snd st'))))"
        using load_line_distinct [of env oom raw st st'] Continue "1.prems" by blast
      then have "distinct (map ptr (entry (snd (snd (load_loop env oom rest st')))))"
        using "1.IH" [OF Some x2 [symmetric] Continue] by blast
      then show ?thesis using Some x2 Continue by (subst load_loop.simps) simp
    next
      case (Break st')
      have "distinct (map ptr (entry (snd (snd st'))))"
        using load_line_distinct [of env oom raw st st'] Break "1.prems" by blast
      then show ?thesis using Some x2 Break by (subst load_loop.simps) simp
    qed
  qed
qed

lemma load_distinct:
  assumes "distinct (map ptr (entry self))"
  shows "distinct (map ptr (entry (snd (usc_state_tracker_load env oom self))))"
proof (cases "fopen_r env (state_file self)")
  case (Inl e)
  then show ?thesis using assms by (simp add: usc_state_tracker_load_def)
next
  case (Inr content)
  have "distinct (map ptr (entry (snd (snd (load_loop env oom content (0, 0, self))))))"
    using load_loop_distinct [of "(0, 0, self)" env oom content] assms by simp
  then show ?thesis using Inr
    by (cases "load_loop env oom content (0, 0, self)")
       (simp add: usc_state_tracker_load_def)
qed

lemma push_path_cases:
  assumes "usc_state_tracker_push_path env c s self path = (ok, self')"
  shows "(\<not> ok \<and> self' = self)
     \<or> (ok \<and> (\<exists>dup mt. realpath env path = Some dup
            \<and> usc_state_tracker_put_entry c s self dup mt = (True, self')))"
proof (cases "realpath env path")
  case None
  with assms show ?thesis by (auto simp: usc_state_tracker_push_path_def)
next
  case (Some dup)
  show ?thesis
  proof (cases "stat env dup")
    case None
    with Some assms show ?thesis by (auto simp: usc_state_tracker_push_path_def)
  next
    case (Some mt)
    with \<open>realpath env path = Some dup\<close> assms
    have p: "usc_state_tracker_put_entry c s self dup mt = (ok, self')"
      by (simp add: usc_state_tracker_push_path_def)
    show ?thesis
    proof (cases ok)
      case True
      with p \<open>realpath env path = Some dup\<close> show ?thesis by auto
    next
      case False
      with put_entry_ptrs [OF p] show ?thesis by blast
    qed
  qed
qed

lemma push_path_distinct:
  assumes "distinct (map ptr (entry self))"
  shows "distinct (map ptr (entry (snd (usc_state_tracker_push_path env c s self path))))"
proof -
  obtain ok self' where r: "usc_state_tracker_push_path env c s self path = (ok, self')"
    by (cases "usc_state_tracker_push_path env c s self path")
  from push_path_cases [OF r] show ?thesis
    using assms r by (auto dest: put_entry_distinct)
qed

lemma perform_distinct:
  "distinct (map ptr (entry self)) \<Longrightarrow> distinct (map ptr (entry (snd (perform c self))))"
  by (cases c) (simp_all add: push_path_distinct load_distinct)

lemma run_distinct:
  "distinct (map ptr (entry self)) \<Longrightarrow> distinct (map ptr (entry (run cs self)))"
  by (induction cs arbitrary: self) (simp_all add: perform_distinct)

lemma run_record_paths_tracked:
  "succeeds cs self \<Longrightarrow> list_all is_record_path cs \<Longrightarrow>
     Some ` tracked (run cs self) = Some ` tracked self \<union> set (map canonical cs)"
proof (induction cs arbitrary: self)
  case Nil
  then show ?case by simp
next
  case (Cons c cs)
  from Cons.prems(2) obtain env a b path where c: "c = RecordPath env a b path"
    by (cases c) auto
  obtain ok self' where r: "usc_state_tracker_push_path env a b self path = (ok, self')"
    by (cases "usc_state_tracker_push_path env a b self path")
  from Cons.prems(1) c r have ok: "ok" and rest: "succeeds cs self'" by simp_all
  from push_path_cases [OF r] ok obtain dup mt where
    d: "realpath env path = Some dup" "usc_state_tracker_put_entry a b self dup mt = (True, self')"
    by blast
  have t: "tracked self' = insert dup (tracked self)" using d(2) by (rule put_entry_tracked)
  have "Some ` tracked (run cs self') = Some ` tracked self' \<union> set (map canonical cs)"
    using Cons.IH [OF rest] Cons.prems(2) by simp
  then show ?case using c r d(1) t by simp
qed

text \<open>
  C8. Path uniqueness. After any sequence of record-path and load calls on a new tracker
  (successful or not) no two nodes of the chain have equal paths. Putting a path that the
  tracker already holds succeeds without allocating, keeps the paths of the chain as
  they are, and changes the stored mtime of that path only. After a sequence of
  successful record-path calls the number of nodes is the number of distinct canonical
  paths of the calls.
\<close>

theorem path_uniqueness:
  "distinct (map ptr (entry (run cs (usc_state_tracker_new status_file))))
   \<and> (path \<in> tracked self \<longrightarrow>
        (\<exists>self'. usc_state_tracker_put_entry calloc_ok strdup_ok self path m = (True, self')
           \<and> map ptr (entry self') = map ptr (entry self)
           \<and> stored_mtime self' path = Some m
           \<and> (\<forall>q. q \<noteq> path \<longrightarrow> stored_mtime self' q = stored_mtime self q)))
   \<and> (list_all is_record_path cs \<and> succeeds cs (usc_state_tracker_new status_file) \<longrightarrow>
        length (entry (run cs (usc_state_tracker_new status_file)))
          = length (remdups (map canonical cs)))"
proof (intro conjI impI)
  show "distinct (map ptr (entry (run cs (usc_state_tracker_new status_file))))"
    by (rule run_distinct) (simp add: usc_state_tracker_new_def)
next
  assume "path \<in> tracked self"
  then show "\<exists>self'. usc_state_tracker_put_entry calloc_ok strdup_ok self path m = (True, self')
           \<and> map ptr (entry self') = map ptr (entry self)
           \<and> stored_mtime self' path = Some m
           \<and> (\<forall>q. q \<noteq> path \<longrightarrow> stored_mtime self' q = stored_mtime self q)"
    by (rule put_entry_in_place)
next
  let ?t = "run cs (usc_state_tracker_new status_file)"
  assume a: "list_all is_record_path cs \<and> succeeds cs (usc_state_tracker_new status_file)"
  have d: "distinct (map ptr (entry ?t))"
    by (rule run_distinct) (simp add: usc_state_tracker_new_def)
  have "Some ` tracked ?t = set (map canonical cs)"
    using run_record_paths_tracked [of cs "usc_state_tracker_new status_file"] a
    by (simp add: tracked_def usc_state_tracker_new_def)
  then have "card (set (map canonical cs)) = card (Some ` tracked ?t)" by simp
  also have "\<dots> = card (tracked ?t)" by (simp add: card_image)
  also have "\<dots> = length (map ptr (entry ?t))"
    unfolding tracked_def using d by (rule distinct_card)
  finally show "length (entry ?t) = length (remdups (map canonical cs))"
    by (simp add: length_remdups_card_conv)
qed

theorem path_uniqueness_witness:
  "distinct (map ptr (entry (run
       [RecordPath (fs_of [(''/etc/foo'', 1000), (''/etc/bar'', 5)] (Inl ENOENT)) True True ''/etc/foo'',
        Load (fs_of [(''/etc/foo'', 1000)] (Inr (unlines [''7:/etc/foo'', ''8:/etc/foo''])))
          (\<lambda>_. (True, True)),
        RecordPath (fs_of [(''/etc/foo'', 1000), (''/etc/bar'', 5)] (Inl ENOENT)) True True ''/etc/bar'',
        RecordPath (fs_of [(''/etc/foo'', 1500), (''/etc/bar'', 5)] (Inl ENOENT)) True True ''/etc/foo'']
       (usc_state_tracker_new ''/var/status''))))
   \<and> (\<exists>self'. usc_state_tracker_put_entry False False
                  (tracker_of [(''/etc/bar'', 5), (''/etc/foo'', 1000)]) ''/etc/foo'' 1500 = (True, self')
           \<and> map ptr (entry self') = [''/etc/bar'', ''/etc/foo'']
           \<and> stored_mtime self' ''/etc/foo'' = Some 1500
           \<and> (\<forall>q. q \<noteq> ''/etc/foo'' \<longrightarrow>
                 stored_mtime self' q = stored_mtime (tracker_of [(''/etc/bar'', 5), (''/etc/foo'', 1000)]) q))
   \<and> length (entry (run
       [RecordPath (fs_of [(''/etc/foo'', 1000), (''/etc/bar'', 5)] (Inl ENOENT)) True True ''/etc/foo'',
        RecordPath (fs_of [(''/etc/foo'', 1000), (''/etc/bar'', 5)] (Inl ENOENT)) True True ''/etc/bar'',
        RecordPath (fs_of [(''/etc/foo'', 1500), (''/etc/bar'', 5)] (Inl ENOENT)) True True ''/etc/foo'']
       (usc_state_tracker_new ''/var/status''))) = 2"
proof -
  let ?cs = "[RecordPath (fs_of [(''/etc/foo'', 1000), (''/etc/bar'', 5)] (Inl ENOENT)) True True ''/etc/foo'',
        RecordPath (fs_of [(''/etc/foo'', 1000), (''/etc/bar'', 5)] (Inl ENOENT)) True True ''/etc/bar'',
        RecordPath (fs_of [(''/etc/foo'', 1500), (''/etc/bar'', 5)] (Inl ENOENT)) True True ''/etc/foo'']"
  have s: "list_all is_record_path ?cs \<and> succeeds ?cs (usc_state_tracker_new ''/var/status'')"
    by (simp add: fs_of_def usc_state_tracker_new_def usc_state_tracker_push_path_def
          usc_state_tracker_put_entry_def usc_state_tracker_lookup_def)
  have c: "length (remdups (map canonical ?cs)) = 2"
    by (simp add: fs_of_def)
  have t: "''/etc/foo'' \<in> tracked (tracker_of [(''/etc/bar'', 5), (''/etc/foo'', 1000)])"
    by (simp add: tracked_def tracker_of_def)
  have p: "map ptr (entry (tracker_of [(''/etc/bar'', 5), (''/etc/foo'', 1000)])) = [''/etc/bar'', ''/etc/foo'']"
    by (simp add: tracker_of_def)
  show ?thesis
    using
      path_uniqueness [where cs = "[RecordPath (fs_of [(''/etc/foo'', 1000), (''/etc/bar'', 5)] (Inl ENOENT)) True True ''/etc/foo'',
        Load (fs_of [(''/etc/foo'', 1000)] (Inr (unlines [''7:/etc/foo'', ''8:/etc/foo''])))
          (\<lambda>_. (True, True)),
        RecordPath (fs_of [(''/etc/foo'', 1000), (''/etc/bar'', 5)] (Inl ENOENT)) True True ''/etc/bar'',
        RecordPath (fs_of [(''/etc/foo'', 1500), (''/etc/bar'', 5)] (Inl ENOENT)) True True ''/etc/foo'']"
        and status_file = "''/var/status''", THEN conjunct1]
      path_uniqueness [where path = "''/etc/foo''"
        and self = "tracker_of [(''/etc/bar'', 5), (''/etc/foo'', 1000)]"
        and calloc_ok = False and strdup_ok = False and m = 1500, THEN conjunct2, THEN conjunct1]
      path_uniqueness [where cs = ?cs and status_file = "''/var/status''",
        THEN conjunct2, THEN conjunct2]
      s c t p
    by simp
qed

subsection \<open>Decimal numbers: printing and reading back\<close>

lemma digit_char_cases:
  "d < 10 \<Longrightarrow> digit_char d \<in> set ''0123456789''"
proof -
  assume "d < 10"
  then have "d = 0 \<or> d = 1 \<or> d = 2 \<or> d = 3 \<or> d = 4 \<or> d = 5 \<or> d = 6 \<or> d = 7 \<or> d = 8 \<or> d = 9"
    by arith
  then show ?thesis by (auto simp: digit_char_def)
qed

lemma of_char_digit_char: "d < 10 \<Longrightarrow> (of_char (digit_char d) :: nat) = 48 + d"
proof -
  assume "d < 10"
  then have "d = 0 \<or> d = 1 \<or> d = 2 \<or> d = 3 \<or> d = 4 \<or> d = 5 \<or> d = 6 \<or> d = 7 \<or> d = 8 \<or> d = 9"
    by arith
  then show ?thesis by (auto simp: digit_char_def)
qed

lemma isdigit_digit_char: "d < 10 \<Longrightarrow> isdigit (digit_char d)"
  by (simp add: isdigit_def of_char_digit_char)

lemma digit_val_digit_char: "d < 10 \<Longrightarrow> digit_val (digit_char d) = int d"
  by (simp add: digit_val_def of_char_digit_char)

lemma show_nat_digits: "c \<in> set (show_nat n) \<Longrightarrow> c \<in> set ''0123456789''"
proof (induction n rule: show_nat.induct)
  case (1 n)
  show ?case
  proof (cases "n < 10")
    case True
    with "1.prems" digit_char_cases [of n] show ?thesis
      by (subst (asm) show_nat.simps) simp
  next
    case False
    have "n mod 10 < 10" by simp
    from digit_char_cases [OF this] "1.IH" [OF False] "1.prems" False show ?thesis
      by (subst (asm) show_nat.simps) auto
  qed
qed

lemma show_nat_nonempty: "show_nat n \<noteq> []"
  by (subst show_nat.simps) simp

lemma digits_isdigit: "c \<in> set ''0123456789'' \<Longrightarrow> isdigit c"
  by (auto simp: isdigit_def)

lemma digits_not_special:
  "c \<in> set ''0123456789'' \<Longrightarrow>
     c \<noteq> CHR '':'' \<and> c \<noteq> NL \<and> c \<noteq> NUL \<and> c \<noteq> CHR ''#'' \<and> c \<noteq> CHR ''-'' \<and> c \<noteq> CHR ''+''
     \<and> \<not> isspace c"
  by (auto simp: isspace_def)

lemma show_nat_value: "foldl (\<lambda>a c. 10 * a + digit_val c) 0 (show_nat n) = int n"
proof (induction n rule: show_nat.induct)
  case (1 n)
  show ?case
  proof (cases "n < 10")
    case True
    then show ?thesis by (subst show_nat.simps) (simp add: digit_val_digit_char)
  next
    case False
    have "foldl (\<lambda>a c. 10 * a + digit_val c) 0 (show_nat n)
        = 10 * int (n div 10) + int (n mod 10)"
      using "1.IH" [OF False] False
      by (subst show_nat.simps) (simp add: digit_val_digit_char)
    also have "\<dots> = int n" by presburger
    finally show ?thesis .
  qed
qed

lemma takeWhile_all: "(\<And>c. c \<in> set xs \<Longrightarrow> P c) \<Longrightarrow> takeWhile P xs = xs"
  by (induction xs) auto

lemma strtoll_show_nat:
  assumes "int n \<le> LLONG_MAX"
  shows "strtoll noconv (show_nat n) = (int n, Some (length (show_nat n)), None)"
proof -
  let ?s = "show_nat n"
  obtain c r where s: "?s = c # r" using show_nat_nonempty [of n] by (cases ?s) auto
  then have "c \<in> set ?s" by simp
  then have c: "c \<in> set ''0123456789''" by (rule show_nat_digits)
  note sp = digits_not_special [OF c]
  have d1: "dropWhile isspace ?s = ?s" using s sp by simp
  have tw: "takeWhile isdigit ?s = ?s"
    by (rule takeWhile_all) (blast intro: digits_isdigit show_nat_digits)
  have neg: "(case ?s of [] \<Rightarrow> False | c # _ \<Rightarrow> c = CHR ''-'') = False"
    using sp by (simp add: s)
  have s2: "(case ?s of [] \<Rightarrow> [] | c # r \<Rightarrow> if c = CHR ''-'' \<or> c = CHR ''+'' then r else ?s) = ?s"
    using sp by (simp add: s)
  have "LLONG_MIN \<le> int n" by (simp add: LLONG_MIN_def)
  then show ?thesis
    unfolding strtoll_def d1 neg s2 tw Let_def
    using assms show_nat_nonempty [of n] show_nat_value [of n] by simp
qed

lemma strtoll_minus_show_nat:
  assumes "LLONG_MIN \<le> - int n"
  shows "strtoll noconv (CHR ''-'' # show_nat n) = (- int n, Some (Suc (length (show_nat n))), None)"
proof -
  let ?s = "show_nat n"
  have d1: "dropWhile isspace (CHR ''-'' # ?s) = CHR ''-'' # ?s" by (simp add: isspace_def)
  have tw: "takeWhile isdigit ?s = ?s"
    by (rule takeWhile_all) (blast intro: digits_isdigit show_nat_digits)
  have "- int n \<le> LLONG_MAX" by (simp add: LLONG_MAX_def)
  then show ?thesis
    using assms show_nat_nonempty [of n] show_nat_value [of n]
    unfolding strtoll_def d1 by (simp add: tw Let_def)
qed

lemma strtoll_show_int:
  assumes "LLONG_MIN \<le> i" "i \<le> LLONG_MAX"
  shows "strtoll noconv (show_int i) = (i, Some (length (show_int i)), None)"
proof (cases "i < 0")
  case True
  then show ?thesis using assms(1) strtoll_minus_show_nat [of "nat (- i)" noconv]
    by (simp add: show_int_def)
next
  case False
  then show ?thesis using assms(2) strtoll_show_nat [of "nat i" noconv]
    by (simp add: show_int_def)
qed

lemma show_int_chars:
  "c \<in> set (show_int i) \<Longrightarrow> c \<noteq> CHR '':'' \<and> c \<noteq> NL \<and> c \<noteq> NUL \<and> c \<noteq> CHR ''#''"
  using digits_not_special show_nat_digits
  by (auto simp: show_int_def split: if_splits)

lemma show_int_nonempty: "show_int i \<noteq> []"
  by (simp add: show_int_def show_nat_nonempty)

subsection \<open>write followed by load\<close>

lemma memchr_append:
  "c \<notin> set xs \<Longrightarrow> memchr (xs @ c # ys) c = Some (length xs)"
  by (induction xs) auto

lemma cstr_id: "NUL \<notin> set p \<Longrightarrow> cstr p = p"
  unfolding cstr_def by (rule takeWhile_all) auto

lemma load_line_record:
  assumes "LLONG_MIN \<le> mtime e" "mtime e \<le> LLONG_MAX"
    and "NL \<notin> set (ptr e)" "NUL \<notin> set (ptr e)" "usc_file_exists env (ptr e)"
  shows "load_line env oom (record_line e @ [NL]) (errno, k, self) =
     (case usc_state_tracker_put_entry (fst (oom k)) (snd (oom k)) self (ptr e) (mtime e) of
        (ok, self') \<Rightarrow>
          if \<not> ok then Break (EINVAL, Suc k, self') else Continue (errno, Suc k, self'))"
proof -
  let ?n = "show_int (mtime e)"
  let ?bfr = "?n @ CHR '':'' # ptr e"
  obtain c r where n: "?n = c # r" using show_int_nonempty [of "mtime e"] by (cases ?n) auto
  then have "c \<in> set ?n" by simp
  then have c: "c \<noteq> CHR ''#''" using show_int_chars by blast
  have raw: "record_line e @ [NL] = ?bfr @ [NL]" by (simp add: record_line_def)
  have nc: "\<not> (case ?bfr of [] \<Rightarrow> False | b # _ \<Rightarrow> b = CHR ''#'')"
    using c by (simp add: n)
  have "CHR '':'' \<notin> set ?n" using show_int_chars by blast
  then have m: "memchr ?bfr CHR '':'' = Some (length ?n)" by (rule memchr_append)
  have len: "\<not> length ?n < 1" using show_int_nonempty [of "mtime e"] by (simp add: less_Suc0)
  have "NUL \<notin> set ?n" using show_int_chars by blast
  then have tk: "cstr ?n = ?n" by (rule cstr_id)
  have dr: "cstr (ptr e) = ptr e" using assms(4) by (rule cstr_id)
  have st: "strtoll (strtoll_noconv env) ?n = (mtime e, Some (length ?n), None)"
    using assms(1,2) by (rule strtoll_show_int)
  have strip: "butlast (?bfr @ [NL]) = ?bfr" "last (?bfr @ [NL]) = NL"
    "(length (?bfr @ [NL]) < 1) = False"
    by (rule butlast_snoc, rule last_snoc, simp)
  show ?thesis
    unfolding raw load_line_def strip
    using nc assms(5) by (simp add: Let_def m len tk dr st show_int_nonempty split: prod.splits)
qed


lemma write_nodes_content:
  "write_nodes env k es out = (True, out') \<Longrightarrow>
     out' = out @ unlines (map record_line (filter (\<lambda>e. usc_file_exists env (ptr e)) es))"
proof (induction es arbitrary: k out)
  case Nil
  then show ?case by (simp add: unlines_def)
next
  case (Cons e es)
  show ?case
  proof (cases "usc_file_exists env (ptr e)")
    case False
    with Cons.prems have "write_nodes env (Suc k) es out = (True, out')" by simp
    from Cons.IH [OF this] False show ?thesis by simp
  next
    case True
    with Cons.prems have ok: "fprintf_ok env k" by (auto split: if_splits)
    with True Cons.prems
    have "write_nodes env (Suc k) es (out @ show_int (mtime e) @ [CHR '':''] @ ptr e @ [NL])
           = (True, out')" by simp
    from Cons.IH [OF this] True show ?thesis by (simp add: unlines_def record_line_def)
  qed
qed

lemma load_loop_records:
  assumes "\<forall>k. oom k = (True, True)"
  shows "\<forall>e \<in> set es. usc_file_exists env (ptr e) \<and> NL \<notin> set (ptr e) \<and> NUL \<notin> set (ptr e)
            \<and> LLONG_MIN \<le> mtime e \<and> mtime e \<le> LLONG_MAX \<Longrightarrow>
         distinct (map ptr es) \<Longrightarrow> set (map ptr es) \<inter> tracked self = {} \<Longrightarrow>
         load_loop env oom (unlines (map record_line es)) (errno, k, self)
           = (errno, k + length es, self\<lparr>entry := rev es @ entry self\<rparr>)"
proof (induction es arbitrary: k self)
  case Nil
  then show ?case by (simp add: unlines_def load_loop_Nil)
next
  case (Cons e es)
  from Cons.prems(1) have e: "usc_file_exists env (ptr e)" "NL \<notin> set (ptr e)" "NUL \<notin> set (ptr e)"
    "LLONG_MIN \<le> mtime e" "mtime e \<le> LLONG_MAX" by simp_all
  have nl: "NL \<notin> set (record_line e)"
    using e(2) show_int_chars [of NL "mtime e"] by (auto simp: record_line_def)
  have "ptr e \<notin> tracked self" using Cons.prems(3) by auto
  then have "usc_state_tracker_lookup self (ptr e) = None"
    by (simp add: usc_state_tracker_lookup_def tracked_def lookup_chain_None)
  then have put: "usc_state_tracker_put_entry True True self (ptr e) (mtime e)
      = (True, self\<lparr>entry := e # entry self\<rparr>)"
    by (simp add: usc_state_tracker_put_entry_def)
  let ?self' = "self\<lparr>entry := e # entry self\<rparr>"
  have line: "load_line env oom (record_line e @ [NL]) (errno, k, self) = Continue (errno, Suc k, ?self')"
    using load_line_record [OF e(4,5,2,3,1), of oom errno k self] assms put by simp
  have disj: "set (map ptr es) \<inter> tracked ?self' = {}"
    using Cons.prems(2,3) by (auto simp: tracked_def)
  have "load_loop env oom (unlines (map record_line es)) (errno, Suc k, ?self')
      = (errno, Suc k + length es, ?self'\<lparr>entry := rev es @ entry ?self'\<rparr>)"
    using Cons.IH [of ?self' "Suc k"] Cons.prems(1,2) disj by simp
  moreover have "unlines (map record_line (e # es))
      = record_line e @ NL # unlines (map record_line es)"
    by (simp add: unlines_def)
  ultimately show ?case using nl line by (simp add: load_loop_line)
qed

lemma load_loop_header: "load_loop env oom (header @ body) st = load_loop env oom body st"
proof -
  let ?h = "''# This file is automatically generated. DO NOT EDIT''"
  have 1: "header @ body = ?h @ NL # body" by (simp add: header_def)
  have 2: "NL \<notin> set ?h" by simp
  have 3: "is_comment ?h" by (simp add: is_comment_def)
  show ?thesis unfolding 1 load_loop_line [OF 2] load_line_comment [OF 3] by simp
qed

text \<open>
  C2, as amended. Serialization round-trips, colons in paths included, for paths without
  a newline byte: when write succeeds on a tracker with unique paths whose live paths
  contain no newline (and, being C strings, no NUL) and whose mtimes are in the 64-bit
  range, the file is the header followed by one line \<open><mtime>:<path>\<close> for each live
  node, and a load of that file into an empty tracker, on the same filesystem and with
  allocations succeeding, returns success and holds exactly the live nodes, each with
  its original path string and mtime.
\<close>

theorem write_load_roundtrip:
  assumes "usc_state_tracker_write env track_dir self = (True, Some content)"
    and "fopen_r env (state_file fresh) = Inr content" and "entry fresh = []"
    and "\<forall>k. oom k = (True, True)"
    and "distinct (map ptr (entry self))"
    and "\<forall>e \<in> set (entry self). usc_file_exists env (ptr e) \<longrightarrow>
           NL \<notin> set (ptr e) \<and> NUL \<notin> set (ptr e) \<and> LLONG_MIN \<le> mtime e \<and> mtime e \<le> LLONG_MAX"
  shows "content = header @ unlines (map record_line
            (filter (\<lambda>e. usc_file_exists env (ptr e)) (entry self)))
    \<and> usc_state_tracker_load env oom fresh
        = (True, fresh\<lparr>entry := rev (filter (\<lambda>e. usc_file_exists env (ptr e)) (entry self))\<rparr>)"
proof -
  let ?live = "filter (\<lambda>e. usc_file_exists env (ptr e)) (entry self)"
  from assms(1) have "write_nodes env 0 (entry self) header = (True, content)"
    by (auto simp: usc_state_tracker_write_def split: if_splits prod.splits)
  then have content: "content = header @ unlines (map record_line ?live)"
    by (rule write_nodes_content)
  have "load_loop env oom content (0, 0, fresh)
      = load_loop env oom (unlines (map record_line ?live)) (0, 0, fresh)"
    unfolding content by (rule load_loop_header)
  also have "\<dots> = (0, 0 + length ?live, fresh\<lparr>entry := rev ?live @ entry fresh\<rparr>)"
  proof (rule load_loop_records [OF assms(4)])
    show "\<forall>e \<in> set ?live. usc_file_exists env (ptr e) \<and> NL \<notin> set (ptr e) \<and> NUL \<notin> set (ptr e)
            \<and> LLONG_MIN \<le> mtime e \<and> mtime e \<le> LLONG_MAX"
      using assms(6) by simp
    show "distinct (map ptr ?live)" using assms(5) by (rule distinct_map_filter)
    show "set (map ptr ?live) \<inter> tracked fresh = {}" using assms(3) by (simp add: tracked_def)
  qed
  finally have "load_loop env oom content (0, 0, fresh) = (0, length ?live, fresh\<lparr>entry := rev ?live\<rparr>)"
    using assms(3) by simp
  then have "usc_state_tracker_load env oom fresh = (True, fresh\<lparr>entry := rev ?live\<rparr>)"
    using assms(2) by (simp add: usc_state_tracker_load_def)
  with content show ?thesis by simp
qed

theorem write_load_roundtrip_witness:
  "usc_state_tracker_write
      (fs_of [(''/tmp/a:b'', 42), (''/etc/foo'', - 5)]
         (Inr (header @ unlines [''42:/tmp/a:b'', ''-5:/etc/foo''])))
      ''/var'' (tracker_of [(''/tmp/a:b'', 42), (''/gone'', 7), (''/etc/foo'', - 5)])
     = (True, Some (header @ unlines [''42:/tmp/a:b'', ''-5:/etc/foo'']))
   \<and> usc_state_tracker_load
      (fs_of [(''/tmp/a:b'', 42), (''/etc/foo'', - 5)]
         (Inr (header @ unlines [''42:/tmp/a:b'', ''-5:/etc/foo''])))
      (\<lambda>_. (True, True)) (tracker_of [])
     = (True, tracker_of [(''/etc/foo'', - 5), (''/tmp/a:b'', 42)])"
proof -
  let ?env = "fs_of [(''/tmp/a:b'', 42), (''/etc/foo'', - 5)]
         (Inr (header @ unlines [''42:/tmp/a:b'', ''-5:/etc/foo'']))"
  let ?self = "tracker_of [(''/tmp/a:b'', 42), (''/gone'', 7), (''/etc/foo'', - 5)]"
  have w: "usc_state_tracker_write ?env ''/var'' ?self
     = (True, Some (header @ unlines [''42:/tmp/a:b'', ''-5:/etc/foo'']))"
    by code_simp
  have f: "fopen_r ?env (state_file (tracker_of [])) = Inr (header @ unlines [''42:/tmp/a:b'', ''-5:/etc/foo''])"
    "entry (tracker_of []) = []" "\<forall>k. (\<lambda>_. (True, True)) k = (True, True)"
    by (simp_all add: fs_of_def tracker_of_def)
  have d: "distinct (map ptr (entry ?self))" by (simp add: tracker_of_def)
  have r: "\<forall>e \<in> set (entry ?self). usc_file_exists ?env (ptr e) \<longrightarrow>
           NL \<notin> set (ptr e) \<and> NUL \<notin> set (ptr e) \<and> LLONG_MIN \<le> mtime e \<and> mtime e \<le> LLONG_MAX"
    by (simp add: tracker_of_def fs_of_def LLONG_MIN_def LLONG_MAX_def)
  have l: "rev (filter (\<lambda>e. usc_file_exists ?env (ptr e)) (entry ?self))
      = entry (tracker_of [(''/etc/foo'', - 5), (''/tmp/a:b'', 42)])"
    by (simp add: tracker_of_def fs_of_def)
  have t: "(tracker_of [])\<lparr>entry := entry (tracker_of [(''/etc/foo'', - 5), (''/tmp/a:b'', 42)])\<rparr>
      = tracker_of [(''/etc/foo'', - 5), (''/tmp/a:b'', 42)]"
    by (simp add: tracker_of_def)
  have load: "usc_state_tracker_load ?env (\<lambda>_. (True, True)) (tracker_of [])
      = (True, tracker_of [(''/etc/foo'', - 5), (''/tmp/a:b'', 42)])"
    using write_load_roundtrip [OF w f d r, THEN conjunct2] unfolding l t .
  show ?thesis using w load by (rule conjI)
qed

text \<open>
  C2, as stated, fails for a path with a colon and a newline: the path
  \<open>/tmp/a:b<newline>c\<close> with mtime 42 is written as the two lines \<open>42:/tmp/a:b\<close> and
  \<open>c\<close>; the load drops the first (no such file) and breaks off at the second, which has
  no colon, so it returns failure with the tracker empty.
\<close>

theorem roundtrip_newline_counterexample:
  "usc_state_tracker_write
      (fs_of [(''/tmp/a:b'' @ [NL] @ ''c'', 42)] (Inl ENOENT))
      ''/var'' (tracker_of [(''/tmp/a:b'' @ [NL] @ ''c'', 42)])
     = (True, Some (header @ unlines [''42:/tmp/a:b'', ''c'']))
   \<and> usc_state_tracker_load
      (fs_of [(''/tmp/a:b'' @ [NL] @ ''c'', 42)] (Inr (header @ unlines [''42:/tmp/a:b'', ''c''])))
      (\<lambda>_. (True, True)) (tracker_of [])
     = (False, tracker_of [])"
  by code_simp

end
